theory Spec2Isabelle
  imports Main "HOL-Library.Word"
begin

section \<open>Strings, bytes and slices\<close>

text \<open>
  A Python \<open>str\<close> is a sequence of Unicode code points and \<open>len\<close> counts code points,
  so a string is a list of code points (natural numbers). A \<open>bytes\<close> object is a list
  of 8-bit words. String literals of the source are written as HOL strings and read
  into code points by \<open>str\<close>.
\<close>

type_synonym pystr = "nat list"
type_synonym bytes = "8 word list"

definition str :: "string \<Rightarrow> pystr" where
  "str s = map of_char s"

text \<open>
  \<open>xs[i:j]\<close> with step 1: a negative index counts from the end, and both indices are
  clamped to the range \<open>0 .. len xs\<close>; the slice is empty when the clamped stop is not
  beyond the clamped start.
\<close>

definition slice :: "'a list \<Rightarrow> int \<Rightarrow> int \<Rightarrow> 'a list" where
  "slice xs i j =
     (let n = int (length xs);
          lo = (if i < 0 then max (i + n) 0 else min i n);
          hi = (if j < 0 then max (j + n) 0 else min j n)
      in take (nat (hi - lo)) (drop (nat lo) xs))"

definition startswith :: "'a list \<Rightarrow> 'a list \<Rightarrow> bool" where
  "startswith xs p = (take (length p) xs = p)"

section \<open>Line segmentation: \<open>wrap_lines\<close>\<close>

text \<open>
  \<open>str.splitlines()\<close> of the Python language: the line boundaries are LF, CR, CR LF
  (one boundary), VT, FF, FS, GS, RS, NEL, LS and PS. The boundaries are not part of
  the lines, and a boundary at the very end of the text opens no further line.
  \<open>splitlines_from cur s\<close> scans \<open>s\<close> with \<open>cur\<close> the characters of the line read so far.
\<close>

definition is_linebreak :: "nat \<Rightarrow> bool" where
  "is_linebreak c = (c \<in> {10, 11, 12, 13, 28, 29, 30, 133, 8232, 8233})"

fun splitlines_from :: "pystr \<Rightarrow> pystr \<Rightarrow> pystr list" where
  "splitlines_from cur [] = (if cur = [] then [] else [cur])"
| "splitlines_from cur [c] = (if is_linebreak c then [cur] else [cur @ [c]])"
| "splitlines_from cur (c # d # s) =
     (if c = 13 \<and> d = 10 then cur # splitlines_from [] s
      else if is_linebreak c then cur # splitlines_from [] (d # s)
      else splitlines_from (cur @ [c]) (d # s))"

definition splitlines :: "pystr \<Rightarrow> pystr list" where
  "splitlines text = splitlines_from [] text"

text \<open>
  The inner \<open>while\<close> loop of \<open>wrap_lines\<close>, from the cursor \<open>start\<close>:
  \<^verbatim>\<open>
        while start < len(line):
            yield line[start : start + max_chars]
            start += max_chars
  \<close>
  \<open>max_chars\<close> is a Python \<open>int\<close> and nothing in the source keeps it positive, so the
  loop need not end: the result is \<open>None\<close> when it yields for ever and \<open>Some\<close> of the
  segments yielded otherwise.
\<close>

partial_function (option) wrap_while :: "pystr \<Rightarrow> int \<Rightarrow> int \<Rightarrow> pystr list option" where
  "wrap_while line max_chars start =
     (if start < int (length line)
      then Option.bind (wrap_while line max_chars (start + max_chars))
             (\<lambda>rest. Some (slice line start (start + max_chars) # rest))
      else Some [])"

declare wrap_while.simps [code]

text \<open>The body of the \<open>for\<close> loop: the segments yielded for one source line.\<close>

definition wrap_line :: "pystr \<Rightarrow> int \<Rightarrow> pystr list option" where
  "wrap_line line max_chars =
     (if int (length line) \<le> max_chars then Some [line]
      else wrap_while line max_chars 0)"

text \<open>The \<open>for\<close> loop over the source lines, yielding the segments in order.\<close>

fun wrap_for :: "pystr list \<Rightarrow> int \<Rightarrow> pystr list option" where
  "wrap_for [] max_chars = Some []"
| "wrap_for (line # lines) max_chars =
     Option.bind (wrap_line line max_chars)
       (\<lambda>segs. Option.bind (wrap_for lines max_chars) (\<lambda>rest. Some (segs @ rest)))"

text \<open>\<open>text.splitlines() or [""]\<close>: the list of source lines the loop runs over.\<close>

definition source_lines :: "pystr \<Rightarrow> pystr list" where
  "source_lines text = (if splitlines text = [] then [[]] else splitlines text)"

definition wrap_lines :: "pystr \<Rightarrow> int \<Rightarrow> pystr list option" where
  "wrap_lines text max_chars = wrap_for (source_lines text) max_chars"

section \<open>Encoding resolution\<close>

text \<open>
  The codecs \<open>utf-8-sig\<close> and \<open>utf-16\<close>, the lenient \<open>utf-8\<close> decoder, path resolution,
  the texts of the operating system's error messages and the serialisation of a canvas
  to PDF bytes belong to the Python library and the platform, not to the source. They
  are parameters of the model, so every result holds whatever they compute. A strict
  decoder returns \<open>None\<close> where Python raises \<open>UnicodeDecodeError\<close>.
\<close>

datatype fs_op =
    Resolve pystr
  | Exists pystr
  | ReadBytes pystr
  | Mkdir pystr
  | CopyFile pystr pystr
  | WriteFile pystr

datatype canvas_op = SetFont pystr nat | DrawString int int pystr | ShowPage

record canvas =
  filename :: pystr
  pagesize :: "int \<times> int"
  code :: "canvas_op list"

record library =
  utf_8_sig :: "bytes \<Rightarrow> pystr option"
  utf_16 :: "bytes \<Rightarrow> pystr option"
  utf_8_ignore :: "bytes \<Rightarrow> pystr"
  resolve :: "pystr \<Rightarrow> pystr"
  error_text :: "fs_op \<Rightarrow> pystr"
  pdf_bytes :: "canvas \<Rightarrow> bytes"

datatype encoding = Utf_8_sig | Utf_16 | Latin_1

text \<open>Latin-1 maps each of the 256 byte values to the code point of the same number.\<close>

definition latin_1 :: "bytes \<Rightarrow> pystr" where
  "latin_1 data = map unat data"

fun decode :: "library \<Rightarrow> encoding \<Rightarrow> bytes \<Rightarrow> pystr option" where
  "decode lib Utf_8_sig data = utf_8_sig lib data"
| "decode lib Utf_16 data = utf_16 lib data"
| "decode lib Latin_1 data = Some (latin_1 data)"

text \<open>
  The loop over the encodings: \<open>break\<close> at the first decoder that succeeds, \<open>continue\<close>
  after a \<open>UnicodeDecodeError\<close>. \<open>None\<close> is the state in which \<open>text\<close> is still \<open>None\<close>
  after the loop.
\<close>

fun decode_loop :: "library \<Rightarrow> encoding list \<Rightarrow> bytes \<Rightarrow> pystr option" where
  "decode_loop lib [] data = None"
| "decode_loop lib (encoding # encodings) data =
     (case decode lib encoding data of
        Some text \<Rightarrow> Some text
      | None \<Rightarrow> decode_loop lib encodings data)"

definition decode_text :: "library \<Rightarrow> bytes \<Rightarrow> pystr" where
  "decode_text lib data =
     (case decode_loop lib [Utf_8_sig, Utf_16, Latin_1] data of
        Some text \<Rightarrow> text
      | None \<Rightarrow> utf_8_ignore lib data)"

section \<open>Page rendering\<close>

text \<open>
  The canvas records the drawing operations in the order they are issued. The
  coordinates are floats in the source, but every value that occurs is a whole number
  of points far below \<open>2^53\<close>, on which float arithmetic and comparison are exact, so
  they are integers here.
\<close>

definition MARGIN :: int where
  "MARGIN = 72"

definition LINE_HEIGHT :: int where
  "LINE_HEIGHT = 14"

text \<open>
  Modelled from the spec: the constant \<open>LETTER\<close> of the rendering library, the page size
  8.5 by 11 inches in points (72 points to the inch), as width and height.
\<close>

definition LETTER :: "int \<times> int" where
  "LETTER = (612, 792)"

definition Canvas :: "pystr \<Rightarrow> int \<times> int \<Rightarrow> canvas" where
  "Canvas file_name page_size = \<lparr>filename = file_name, pagesize = page_size, code = []\<rparr>"

definition setFont :: "pystr \<Rightarrow> nat \<Rightarrow> canvas \<Rightarrow> canvas" where
  "setFont font points doc = doc\<lparr>code := code doc @ [SetFont font points]\<rparr>"

definition drawString :: "int \<Rightarrow> int \<Rightarrow> pystr \<Rightarrow> canvas \<Rightarrow> canvas" where
  "drawString x y text doc = doc\<lparr>code := code doc @ [DrawString x y text]\<rparr>"

definition showPage :: "canvas \<Rightarrow> canvas" where
  "showPage doc = doc\<lparr>code := code doc @ [ShowPage]\<rparr>"

text \<open>
  The body of the rendering loop, on the cursor \<open>y\<close> and the canvas:
  \<^verbatim>\<open>
        if y <= MARGIN:
            doc.showPage()
            doc.setFont("Helvetica", 11)
            y = height - MARGIN
        doc.drawString(MARGIN, y, segment)
        y -= LINE_HEIGHT
  \<close>
\<close>

definition draw_segment :: "int \<Rightarrow> int \<times> canvas \<Rightarrow> pystr \<Rightarrow> int \<times> canvas" where
  "draw_segment height st segment =
     (let (y, doc) = st;
          (y, doc) = (if y \<le> MARGIN
                      then (height - MARGIN, setFont (str ''Helvetica'') 11 (showPage doc))
                      else (y, doc))
      in (y - LINE_HEIGHT, drawString MARGIN y segment doc))"

definition draw_segments :: "int \<Rightarrow> int \<times> canvas \<Rightarrow> pystr list \<Rightarrow> int \<times> canvas" where
  "draw_segments height st segments = foldl (draw_segment height) st segments"

text \<open>The final component of a path, and the path of its parent directory.\<close>

definition path_name :: "pystr \<Rightarrow> pystr" where
  "path_name p = rev (takeWhile (\<lambda>c. c \<noteq> 47) (rev p))"

definition path_parent :: "pystr \<Rightarrow> pystr" where
  "path_parent p =
     (let d = rev (drop 1 (dropWhile (\<lambda>c. c \<noteq> 47) (rev p)))
      in if d = [] then [47] else d)"

text \<open>
  The rendering part of \<open>convert\<close>, from the creation of the canvas to the end of the
  loop, given the segments that \<open>wrap_lines\<close> yields.
\<close>

definition render :: "pystr \<Rightarrow> pystr \<Rightarrow> pystr list \<Rightarrow> canvas" where
  "render jsf_path pdf_path segments =
     (let doc = Canvas pdf_path LETTER;
          (width, height) = LETTER;
          y = height - MARGIN;
          doc = setFont (str ''Helvetica'') 11 doc;
          doc = drawString MARGIN y (str ''Source: '' @ path_name jsf_path) doc;
          y = y - LINE_HEIGHT * 2
      in snd (draw_segments height (y, doc) segments))"

text \<open>
  Two notions for stating properties of a canvas: the strings it draws with their
  positions, in drawing order, and the operations that one pass of the rendering loop
  adds for a segment when the cursor is at \<open>y\<close>.
\<close>

fun strings_drawn :: "canvas_op list \<Rightarrow> (int \<times> int \<times> pystr) list" where
  "strings_drawn [] = []"
| "strings_drawn (DrawString x y s # ops) = (x, y, s) # strings_drawn ops"
| "strings_drawn (SetFont f n # ops) = strings_drawn ops"
| "strings_drawn (ShowPage # ops) = strings_drawn ops"

definition segment_ops :: "int \<Rightarrow> int \<Rightarrow> pystr \<Rightarrow> canvas_op list" where
  "segment_ops height y segment =
     (if y \<le> MARGIN
      then [ShowPage, SetFont (str ''Helvetica'') 11, DrawString MARGIN (height - MARGIN) segment]
      else [DrawString MARGIN y segment])"

section \<open>Files, \<open>convert\<close> and \<open>main\<close>\<close>

text \<open>
  The world the program runs in: the regular files by resolved absolute path, the
  lines printed to the error stream, and a log of the file-system operations carried
  out, in order. Operations on existing files succeed: failures of the environment
  (permissions, a full disk) are outside the model. An exception is a value.
\<close>

record world =
  files :: "pystr \<rightharpoonup> bytes"
  fs_log :: "fs_op list"
  stderr :: "pystr list"

datatype exn = FileNotFoundError pystr | SameFileError pystr

fun exn_str :: "exn \<Rightarrow> pystr" where
  "exn_str (FileNotFoundError msg) = msg"
| "exn_str (SameFileError msg) = msg"

definition log_op :: "fs_op \<Rightarrow> world \<Rightarrow> world" where
  "log_op op w = w\<lparr>fs_log := fs_log w @ [op]\<rparr>"

definition print_stderr :: "pystr \<Rightarrow> world \<Rightarrow> world" where
  "print_stderr line w = w\<lparr>stderr := stderr w @ [line]\<rparr>"

text \<open>
  \<open>shutil.copyfile\<close>: it refuses to copy a file onto itself, and otherwise writes the
  bytes of the source to the destination.
\<close>

definition copyfile :: "library \<Rightarrow> pystr \<Rightarrow> pystr \<Rightarrow> world \<Rightarrow> (exn + unit) \<times> world" where
  "copyfile lib src dst w =
     (if src = dst then (Inl (SameFileError (error_text lib (CopyFile src dst))), w)
      else case files w src of
             None \<Rightarrow> (Inl (FileNotFoundError (error_text lib (CopyFile src dst))), w)
           | Some data \<Rightarrow>
               (Inr (), log_op (CopyFile src dst) (w\<lparr>files := (files w)(dst \<mapsto> data)\<rparr>)))"

text \<open>\<open>doc.save()\<close>: the serialised canvas is written to the file the canvas names.\<close>

definition save :: "library \<Rightarrow> canvas \<Rightarrow> world \<Rightarrow> world" where
  "save lib doc w =
     log_op (WriteFile (filename doc))
       (w\<lparr>files := (files w)(filename doc \<mapsto> pdf_bytes lib doc)\<rparr>)"

definition pdf_signature :: bytes where
  "pdf_signature = [0x25, 0x50, 0x44, 0x46, 0x2D]"

text \<open>
  \<open>convert\<close>. The result is \<open>None\<close> when the call never returns, and otherwise the
  exception raised (\<open>Inl\<close>) or the normal return (\<open>Inr\<close>), with the world it leaves.
\<close>

definition convert ::
  "library \<Rightarrow> pystr \<Rightarrow> pystr \<Rightarrow> world \<Rightarrow> ((exn + unit) \<times> world) option" where
  "convert lib jsf_path pdf_path w0 =
     (let w = log_op (Exists jsf_path) w0 in
      case files w jsf_path of
        None \<Rightarrow> Some (Inl (FileNotFoundError (str ''Missing input: '' @ jsf_path)), w)
      | Some data \<Rightarrow>
          (let w = log_op (ReadBytes jsf_path) w in
           if startswith data pdf_signature
           then (let w = log_op (Mkdir (path_parent pdf_path)) w
                 in Some (copyfile lib jsf_path pdf_path w))
           else (let text = decode_text lib data;
                     w = log_op (Mkdir (path_parent pdf_path)) w
                 in Option.bind (wrap_lines text 100)
                      (\<lambda>segments.
                         Some (Inr (), save lib (render jsf_path pdf_path segments) w)))))"

text \<open>
  \<open>main\<close> on the argument vector \<open>sys.argv\<close> (the program name first); the integer
  returned is the exit code of the process.
\<close>

definition main :: "library \<Rightarrow> pystr list \<Rightarrow> world \<Rightarrow> (int \<times> world) option" where
  "main lib argv w0 =
     (if length argv \<noteq> 3
      then Some (1, print_stderr (str ''Usage: converter.py <input.jsf> <output.pdf>'') w0)
      else (let jsf_path = resolve lib (argv ! 1);
                w = log_op (Resolve (argv ! 1)) w0;
                pdf_path = resolve lib (argv ! 2);
                w = log_op (Resolve (argv ! 2)) w
            in Option.bind (convert lib jsf_path pdf_path w)
                 (\<lambda>(result, w).
                    case result of
                      Inl exc \<Rightarrow>
                        Some (1, print_stderr (str ''Conversion failed: '' @ exn_str exc) w)
                    | Inr _ \<Rightarrow> Some (0, w))))"

section \<open>Properties of the line segmentation\<close>

lemma slice_forward:
  "0 \<le> s \<Longrightarrow> s \<le> int (length xs) \<Longrightarrow> 0 \<le> m \<Longrightarrow>
   slice xs s (s + m) = take (nat m) (drop (nat s) xs)"
  by (auto simp: slice_def Let_def min_def)

lemma slice_contiguous: "\<exists>pre suf. xs = pre @ slice xs i j @ suf"
proof -
  obtain a b where "slice xs i j = take a (drop b xs)"
    unfolding slice_def Let_def by blast
  moreover have "xs = take b xs @ take a (drop b xs) @ drop a (drop b xs)"
    by (simp only: append_take_drop_id)
  ultimately show ?thesis by metis
qed

lemma wrap_while_done: "int (length line) \<le> s \<Longrightarrow> wrap_while line m s = Some []"
  by (subst wrap_while.simps) simp

lemma wrap_while_step:
  "s < int (length line) \<Longrightarrow>
   wrap_while line m s =
     Option.bind (wrap_while line m (s + m)) (\<lambda>rest. Some (slice line s (s + m) # rest))"
  by (subst wrap_while.simps) simp

lemma wrap_while_slices:
  assumes "wrap_while line m s = Some r"
  shows "\<forall>seg\<in>set r. \<exists>i j. seg = slice line i j"
  using assms
proof (rule wrap_while.raw_induct
         [where P = "\<lambda>line m s r. \<forall>seg\<in>set r. \<exists>i j. seg = slice line i j", rotated])
  fix f :: "pystr \<Rightarrow> int \<Rightarrow> int \<Rightarrow> pystr list option" and line m s r
  assume IH: "\<And>line m s r. f line m s = Some r \<Longrightarrow> \<forall>seg\<in>set r. \<exists>i j. seg = slice line i j"
    and body: "(if s < int (length line)
      then Option.bind (f line m (s + m)) (\<lambda>rest. Some (slice line s (s + m) # rest))
      else Some []) = Some r"
  show "\<forall>seg\<in>set r. \<exists>i j. seg = slice line i j"
  proof (cases "s < int (length line)")
    case True
    with body obtain rest where rest: "f line m (s + m) = Some rest"
      and r: "r = slice line s (s + m) # rest"
      by (auto simp: bind_eq_Some_conv)
    from IH[OF rest] r show ?thesis by auto
  next
    case False
    with body show ?thesis by auto
  qed
qed

lemma wrap_while_pos:
  assumes "1 \<le> m" "0 \<le> s"
  shows "\<exists>segs. wrap_while line m s = Some segs
           \<and> concat segs = drop (nat s) line
           \<and> (\<forall>seg\<in>set segs. seg \<noteq> [] \<and> int (length seg) \<le> m)
           \<and> (\<forall>seg\<in>set (butlast segs). int (length seg) = m)"
  using assms(2)
proof (induction "nat (int (length line) - s)" arbitrary: s rule: less_induct)
  case less
  show ?case
  proof (cases "s < int (length line)")
    case False
    then show ?thesis by (simp add: wrap_while_done)
  next
    case True
    let ?seg = "slice line s (s + m)"
    have seg: "?seg = take (nat m) (drop (nat s) line)"
      using True less.prems assms(1) by (simp add: slice_forward)
    have "nat (int (length line) - (s + m)) < nat (int (length line) - s)"
      using True assms(1) by linarith
    moreover have "0 \<le> s + m" using less.prems assms(1) by linarith
    ultimately obtain rest where rest: "wrap_while line m (s + m) = Some rest"
      and cat: "concat rest = drop (nat (s + m)) line"
      and len: "\<forall>seg\<in>set rest. seg \<noteq> [] \<and> int (length seg) \<le> m"
      and full: "\<forall>seg\<in>set (butlast rest). int (length seg) = m"
      using less.hyps[of "s + m"] by blast
    have res: "wrap_while line m s = Some (?seg # rest)"
      using True rest by (simp add: wrap_while_step)
    have "nat (s + m) = nat m + nat s" using less.prems assms(1) by linarith
    then have "drop (nat (s + m)) line = drop (nat m) (drop (nat s) line)"
      by simp
    then have "?seg @ concat rest = take (nat m) (drop (nat s) line) @ drop (nat m) (drop (nat s) line)"
      using cat seg by (simp only:)
    then have c: "concat (?seg # rest) = drop (nat s) line"
      by (simp only: append_take_drop_id concat.simps)
    have ne: "?seg \<noteq> []" using True less.prems assms(1) seg by auto
    have le: "int (length ?seg) \<le> m" using seg assms(1) by simp
    have "rest \<noteq> [] \<Longrightarrow> int (length ?seg) = m"
    proof -
      assume "rest \<noteq> []"
      then have "s + m < int (length line)"
        using rest wrap_while_done[of line "s + m" m] by (cases "s + m < int (length line)") auto
      then show ?thesis using seg less.prems assms(1) by auto
    qed
    then have f: "\<forall>seg\<in>set (butlast (?seg # rest)). int (length seg) = m"
      using full by auto
    show ?thesis using res c ne le len f by auto
  qed
qed

lemma wrap_while_Some_width:
  assumes "wrap_while line m s = Some r"
  shows "s < int (length line) \<longrightarrow> 1 \<le> m"
  using assms
proof (rule wrap_while.raw_induct
         [where P = "\<lambda>line m s r. s < int (length line) \<longrightarrow> 1 \<le> m", rotated])
  fix f :: "pystr \<Rightarrow> int \<Rightarrow> int \<Rightarrow> pystr list option" and line m s r
  assume IH: "\<And>line m s r. f line m s = Some r \<Longrightarrow> s < int (length line) \<longrightarrow> 1 \<le> m"
    and body: "(if s < int (length line)
      then Option.bind (f line m (s + m)) (\<lambda>rest. Some (slice line s (s + m) # rest))
      else Some []) = Some r"
  show "s < int (length line) \<longrightarrow> 1 \<le> m"
  proof
    assume lt: "s < int (length line)"
    with body obtain rest where "f line m (s + m) = Some rest"
      by (auto simp: bind_eq_Some_conv)
    from IH[OF this] have "s + m < int (length line) \<longrightarrow> 1 \<le> m" .
    with lt show "1 \<le> m" by linarith
  qed
qed

lemma wrap_while_diverges:
  "m \<le> 0 \<Longrightarrow> s < int (length line) \<Longrightarrow> wrap_while line m s = None"
  using wrap_while_Some_width[of line m s] by (cases "wrap_while line m s") auto

lemma wrap_line_pos:
  assumes "1 \<le> m"
  shows "\<exists>segs. wrap_line line m = Some segs
           \<and> concat segs = line
           \<and> (\<forall>seg\<in>set segs. int (length seg) \<le> m)
           \<and> (\<forall>seg\<in>set (butlast segs). int (length seg) = m)
           \<and> (int (length line) \<le> m \<longrightarrow> segs = [line])
           \<and> (m < int (length line) \<longrightarrow> segs \<noteq> [] \<and> last segs \<noteq> [])"
proof (cases "int (length line) \<le> m")
  case True
  then show ?thesis using assms by (simp add: wrap_line_def)
next
  case False
  obtain segs where s: "wrap_while line m 0 = Some segs"
    and c: "concat segs = drop (nat 0) line"
    and l: "\<forall>seg\<in>set segs. seg \<noteq> [] \<and> int (length seg) \<le> m"
    and f: "\<forall>seg\<in>set (butlast segs). int (length seg) = m"
    using wrap_while_pos[OF assms, of 0 line] by auto
  have ne: "segs \<noteq> []" using c False assms by auto
  then have "last segs \<in> set segs" by simp
  with l have "last segs \<noteq> []" by blast
  with s c l f ne False show ?thesis by (simp add: wrap_line_def)
qed

lemma wrap_line_None_iff:
  "wrap_line line m = None \<longleftrightarrow> m \<le> 0 \<and> line \<noteq> []"
proof (cases "1 \<le> m")
  case True
  then show ?thesis using wrap_line_pos[OF True, of line] by auto
next
  case False
  show ?thesis
  proof (cases "line = []")
    case True
    then show ?thesis by (simp add: wrap_line_def wrap_while_done)
  next
    case ne: False
    then have "0 < int (length line)" by simp
    then have "\<not> int (length line) \<le> m" using False by linarith
    moreover have "wrap_while line m 0 = None"
      using False ne by (simp add: wrap_while_diverges)
    ultimately show ?thesis using False ne by (simp add: wrap_line_def)
  qed
qed

lemma wrap_line_slices:
  assumes "wrap_line line m = Some segs" "seg \<in> set segs"
  shows "\<exists>pre suf. line = pre @ seg @ suf"
proof (cases "int (length line) \<le> m")
  case True
  with assms have "seg = line" by (auto simp: wrap_line_def)
  then have "line = [] @ seg @ []" by simp
  then show ?thesis by blast
next
  case False
  with assms have "wrap_while line m 0 = Some segs" by (simp add: wrap_line_def)
  from wrap_while_slices[OF this] assms(2) obtain i j where "seg = slice line i j" by blast
  then show ?thesis using slice_contiguous[of line i j] by simp
qed

lemma wrap_for_Cons_Some:
  "wrap_for (line # lines) m = Some segs \<longleftrightarrow>
     (\<exists>ss rest. wrap_line line m = Some ss \<and> wrap_for lines m = Some rest \<and> segs = ss @ rest)"
  by (cases "wrap_line line m"; cases "wrap_for lines m") auto

lemma wrap_for_Cons_None:
  "wrap_for (line # lines) m = None \<longleftrightarrow>
     wrap_line line m = None \<or> wrap_for lines m = None"
  by (cases "wrap_line line m"; cases "wrap_for lines m") auto

lemma wrap_for_None_iff:
  "wrap_for lines m = None \<longleftrightarrow> (\<exists>line\<in>set lines. wrap_line line m = None)"
proof (induction lines)
  case Nil
  show ?case by simp
next
  case (Cons line lines)
  show ?case unfolding wrap_for_Cons_None Cons.IH by simp
qed

lemma wrap_for_member:
  "wrap_for lines m = Some segs \<Longrightarrow> seg \<in> set segs \<Longrightarrow>
   \<exists>line\<in>set lines. \<exists>ss. wrap_line line m = Some ss \<and> seg \<in> set ss"
proof (induction lines arbitrary: segs)
  case Nil
  then show ?case by simp
next
  case (Cons line lines)
  from Cons.prems(1) obtain ss rest where ss: "wrap_line line m = Some ss"
    and rest: "wrap_for lines m = Some rest" and segs: "segs = ss @ rest"
    unfolding wrap_for_Cons_Some by blast
  from Cons.prems(2) segs have "seg \<in> set ss \<or> seg \<in> set rest" by simp
  then show ?case
  proof
    assume "seg \<in> set ss"
    with ss show ?thesis by auto
  next
    assume "seg \<in> set rest"
    from Cons.IH[OF rest this] show ?thesis by auto
  qed
qed

lemma splitlines_from_break:
  "is_linebreak c \<Longrightarrow> \<not> (c = 13 \<and> d = 10) \<Longrightarrow>
   splitlines_from cur (c # d # s) = cur # splitlines_from [] (d # s)"
  by (simp only: splitlines_from.simps if_False if_True)

lemma splitlines_from_char:
  "\<not> is_linebreak c \<Longrightarrow> \<not> (c = 13 \<and> d = 10) \<Longrightarrow>
   splitlines_from cur (c # d # s) = splitlines_from (cur @ [c]) (d # s)"
  by (simp only: splitlines_from.simps if_False if_True)

lemma splitlines_from_clean:
  "\<forall>c\<in>set cur. \<not> is_linebreak c \<Longrightarrow>
   \<forall>line\<in>set (splitlines_from cur s). \<forall>c\<in>set line. \<not> is_linebreak c"
proof (induction cur s rule: splitlines_from.induct)
  case (1 cur)
  then show ?case by simp
next
  case (2 cur c)
  then show ?case by simp
next
  case (3 cur c d s)
  show ?case
  proof (cases "c = 13 \<and> d = 10")
    case True
    have "\<forall>line\<in>set (splitlines_from [] s). \<forall>c\<in>set line. \<not> is_linebreak c"
      by (rule 3(1)[OF True]) simp
    moreover have "splitlines_from cur (c # d # s) = cur # splitlines_from [] s"
      by (subst splitlines_from.simps) (rule if_P[OF True])
    ultimately show ?thesis using 3(4) by simp
  next
    case nocrlf: False
    show ?thesis
    proof (cases "is_linebreak c")
      case True
      have "\<forall>line\<in>set (splitlines_from [] (d # s)). \<forall>c\<in>set line. \<not> is_linebreak c"
        by (rule 3(2)[OF nocrlf True]) simp
      then show ?thesis using 3(4) by (simp only: splitlines_from_break[OF True nocrlf]) simp
    next
      case False
      then have "\<forall>x\<in>set (cur @ [c]). \<not> is_linebreak x" using 3(4) by simp
      from 3(3)[OF nocrlf False this] show ?thesis
        by (simp only: splitlines_from_char[OF False nocrlf])
    qed
  qed
qed

lemma not_break_13: "\<not> is_linebreak c \<Longrightarrow> c \<noteq> 13"
  by (auto simp: is_linebreak_def)

lemma splitlines_from_no_break:
  "\<forall>c\<in>set s. \<not> is_linebreak c \<Longrightarrow>
   splitlines_from cur s = (if cur @ s = [] then [] else [cur @ s])"
proof (induction cur s rule: splitlines_from.induct)
  case (1 cur)
  then show ?case by simp
next
  case (2 cur c)
  then show ?case by simp
next
  case (3 cur c d s)
  from 3(4) have nb: "\<not> is_linebreak c" and rest: "\<forall>x\<in>set (d # s). \<not> is_linebreak x"
    by simp_all
  from nb have nocrlf: "\<not> (c = 13 \<and> d = 10)" using not_break_13 by blast
  from 3(3)[OF nocrlf nb rest] show ?case
    by (simp only: splitlines_from_char[OF nb nocrlf]) simp
qed

lemma source_lines_clean:
  "\<forall>line\<in>set (source_lines text). \<forall>c\<in>set line. \<not> is_linebreak c"
proof -
  have "\<forall>line\<in>set (splitlines text). \<forall>c\<in>set line. \<not> is_linebreak c"
    unfolding splitlines_def by (rule splitlines_from_clean) simp
  then show ?thesis by (simp add: source_lines_def)
qed

lemma source_lines_no_break:
  "\<forall>c\<in>set text. \<not> is_linebreak c \<Longrightarrow> source_lines text = [text]"
  by (simp add: source_lines_def splitlines_def splitlines_from_no_break)

lemma source_lines_nonempty: "source_lines text \<noteq> []"
  by (simp add: source_lines_def)

lemma wrap_lines_total: "1 \<le> m \<Longrightarrow> wrap_lines text m \<noteq> None"
proof -
  assume m: "1 \<le> m"
  have "\<not> (\<exists>line\<in>set (source_lines text). wrap_line line m = None)"
    using m by (simp add: wrap_line_None_iff)
  then show ?thesis unfolding wrap_lines_def wrap_for_None_iff .
qed

lemma source_lines_single_char: "source_lines [97] = [[97]]"
  by (simp add: source_lines_def splitlines_def is_linebreak_def)

lemma wrap_lines_member:
  assumes "wrap_lines text m = Some segs" "seg \<in> set segs"
  obtains line ss where "line \<in> set (source_lines text)"
    "wrap_line line m = Some ss" "seg \<in> set ss"
proof -
  from assms(1) have "wrap_for (source_lines text) m = Some segs"
    by (simp only: wrap_lines_def)
  from wrap_for_member[OF this assms(2)] that show thesis by blast
qed

lemma wrap_line_width:
  assumes "1 \<le> m" "wrap_line line m = Some ss" "seg \<in> set ss"
  shows "int (length seg) \<le> m"
proof -
  from wrap_line_pos[OF assms(1), of line] obtain segs where
    "wrap_line line m = Some segs" "\<forall>seg\<in>set segs. int (length seg) \<le> m"
    by blast
  with assms(2,3) show ?thesis by simp
qed

lemma source_lines_two: "source_lines [104, 101, 10, 108, 108, 111] = [[104, 101], [108, 108, 111]]"
  by (simp add: source_lines_def splitlines_def is_linebreak_def)

lemma wrap_lines_two:
  "wrap_lines [104, 101, 10, 108, 108, 111] 2 = Some [[104, 101], [108, 108], [111]]"
  by (simp add: wrap_lines_def source_lines_two wrap_line_def wrap_while.simps slice_def)

lemma wrap_lines_one_line:
  assumes "\<forall>c\<in>set line. \<not> is_linebreak c"
  shows "wrap_lines line m = wrap_line line m"
proof -
  have "wrap_lines line m = wrap_for [line] m"
    by (simp only: wrap_lines_def source_lines_no_break[OF assms])
  also have "\<dots> = wrap_line line m"
    by (cases "wrap_line line m") simp_all
  finally show ?thesis .
qed

lemma wrap_lines_hello: "wrap_lines [104, 101, 108, 108, 111] 2 = Some [[104, 101], [108, 108], [111]]"
  by (simp add: wrap_lines_def source_lines_def splitlines_def is_linebreak_def
      wrap_line_def wrap_while.simps slice_def)

section \<open>The claims about \<open>wrap_lines\<close>\<close>

text \<open>
  C9 (as amended). \<open>wrap_lines\<close> yields finitely many segments exactly when the width is
  at least 1 or every source line is empty: with a width of 0 or less, the \<open>while\<close>
  loop never moves its cursor forward on a non-empty source line and yields for ever.
  In particular the generator is finite for every text at the default width 100.
\<close>

theorem wrap_lines_finite_iff:
  "wrap_lines text max_chars \<noteq> None \<longleftrightarrow>
     (1 \<le> max_chars \<or> (\<forall>line\<in>set (source_lines text). line = []))"
proof -
  have "wrap_lines text max_chars = None \<longleftrightarrow>
      (\<exists>line\<in>set (source_lines text). max_chars \<le> 0 \<and> line \<noteq> [])"
    unfolding wrap_lines_def wrap_for_None_iff wrap_line_None_iff ..
  then show ?thesis by auto
qed

theorem wrap_lines_finite_iff_witness:
  "wrap_lines [104, 105] 100 \<noteq> None \<and> (1::int) \<le> 100"
  using wrap_lines_finite_iff [of "[104, 105]" 100] by simp

text \<open>
  C9 as stated fails: for the text \<open>"a"\<close> and the width 0 the generator never finishes.
\<close>

theorem wrap_lines_zero_width_diverges: "wrap_lines [97] 0 = None"
proof -
  have "wrap_line [97] 0 = None" by (simp add: wrap_line_None_iff)
  then show ?thesis by (simp add: wrap_lines_def source_lines_single_char)
qed

text \<open>
  C3. For every text and every width \<open>max_chars \<ge> 1\<close>, \<open>wrap_lines\<close> finishes and every
  segment it yields has at most \<open>max_chars\<close> characters.
\<close>

theorem wrap_lines_segment_width:
  assumes "1 \<le> max_chars"
  shows "\<exists>segs. wrap_lines text max_chars = Some segs
           \<and> (\<forall>seg\<in>set segs. int (length seg) \<le> max_chars)"
proof -
  from wrap_lines_total[OF assms] obtain segs where segs: "wrap_lines text max_chars = Some segs"
    by blast
  have "int (length seg) \<le> max_chars" if "seg \<in> set segs" for seg
  proof -
    from wrap_lines_member[OF segs that] obtain line ss
      where "wrap_line line max_chars = Some ss" "seg \<in> set ss" by blast
    then show ?thesis by (rule wrap_line_width[OF assms])
  qed
  with segs show ?thesis by blast
qed

theorem wrap_lines_segment_width_witness:
  "(1::int) \<le> 2
   \<and> wrap_lines [104, 101, 10, 108, 108, 111] 2 = Some [[104, 101], [108, 108], [111]]
   \<and> (\<exists>segs. wrap_lines [104, 101, 10, 108, 108, 111] 2 = Some segs
           \<and> (\<forall>seg\<in>set segs. int (length seg) \<le> 2))"
  using wrap_lines_segment_width [of 2 "[104, 101, 10, 108, 108, 111]"] wrap_lines_two
  by simp

text \<open>
  C10. No segment yielded by \<open>wrap_lines\<close> contains a line-break character, and every
  segment is a contiguous slice (possibly the whole) of one source line. This holds at
  every width at which the generator finishes.
\<close>

theorem wrap_lines_no_linebreak:
  assumes "wrap_lines text max_chars = Some segs" "seg \<in> set segs"
  shows "(\<forall>c\<in>set seg. \<not> is_linebreak c)
       \<and> (\<exists>line\<in>set (source_lines text). \<exists>pre suf. line = pre @ seg @ suf)"
proof -
  from wrap_lines_member[OF assms] obtain line ss where line: "line \<in> set (source_lines text)"
    and ss: "wrap_line line max_chars = Some ss" "seg \<in> set ss" by blast
  from wrap_line_slices[OF ss] obtain pre suf where eq: "line = pre @ seg @ suf" by blast
  from line source_lines_clean have clean: "\<forall>c\<in>set line. \<not> is_linebreak c" by blast
  have "set (pre @ seg @ suf) = set pre \<union> set seg \<union> set suf" by auto
  then have "set seg \<subseteq> set line" unfolding eq by blast
  with clean have "\<forall>c\<in>set seg. \<not> is_linebreak c" by blast
  moreover from line eq have "\<exists>line\<in>set (source_lines text). \<exists>pre suf. line = pre @ seg @ suf"
    by blast
  ultimately show ?thesis ..
qed

theorem wrap_lines_no_linebreak_witness:
  "wrap_lines [104, 101, 10, 108, 108, 111] 2 = Some [[104, 101], [108, 108], [111]]
   \<and> ([111] :: pystr) \<in> set [[104, 101], [108, 108], [111]]
   \<and> \<not> is_linebreak 111
   \<and> (\<exists>line\<in>set (source_lines [104, 101, 10, 108, 108, 111]).
        \<exists>pre suf. line = pre @ [111] @ suf)"
proof -
  have "[111] \<in> set [[104, 101], [108, 108], [111::nat]]" by simp
  from wrap_lines_no_linebreak [OF wrap_lines_two this] wrap_lines_two
  show ?thesis by simp
qed

text \<open>
  C4. For every source line (a string without line-break characters) and every width
  \<open>max_chars \<ge> 1\<close>: a line within the width is yielded unchanged; a longer line is cut
  into consecutive chunks of exactly \<open>max_chars\<close> characters, the last one non-empty and
  possibly shorter; in both cases the chunks concatenate to the line.
\<close>

theorem wrap_lines_single_line:
  assumes "1 \<le> max_chars" "\<forall>c\<in>set line. \<not> is_linebreak c"
  shows "\<exists>segs. wrap_lines line max_chars = Some segs
           \<and> wrap_line line max_chars = Some segs
           \<and> concat segs = line
           \<and> (int (length line) \<le> max_chars \<longrightarrow> segs = [line])
           \<and> (max_chars < int (length line) \<longrightarrow>
                 (\<forall>seg\<in>set (butlast segs). int (length seg) = max_chars)
                 \<and> segs \<noteq> [] \<and> last segs \<noteq> []
                 \<and> int (length (last segs)) \<le> max_chars)"
proof -
  from wrap_line_pos[OF assms(1), of line] obtain segs where
    w: "wrap_line line max_chars = Some segs" and c: "concat segs = line"
    and le: "\<forall>seg\<in>set segs. int (length seg) \<le> max_chars"
    and full: "\<forall>seg\<in>set (butlast segs). int (length seg) = max_chars"
    and short: "int (length line) \<le> max_chars \<longrightarrow> segs = [line]"
    and long: "max_chars < int (length line) \<longrightarrow> segs \<noteq> [] \<and> last segs \<noteq> []"
    by blast
  have l: "max_chars < int (length line) \<longrightarrow> int (length (last segs)) \<le> max_chars"
  proof
    assume "max_chars < int (length line)"
    with long have "last segs \<in> set segs" by simp
    with le show "int (length (last segs)) \<le> max_chars" by blast
  qed
  have "wrap_lines line max_chars = Some segs"
    using w by (simp only: wrap_lines_one_line[OF assms(2)])
  with w c short long full l show ?thesis by blast
qed

theorem wrap_lines_single_line_witness:
  "(1::int) \<le> 2 \<and> list_all (\<lambda>c. \<not> is_linebreak c) [104, 101, 108, 108, 111]
   \<and> wrap_lines [104, 101, 108, 108, 111] 2 = Some [[104, 101], [108, 108], [111]]
   \<and> (\<exists>segs. wrap_lines [104, 101, 108, 108, 111] 2 = Some segs
         \<and> concat segs = [104, 101, 108, 108, 111] \<and> last segs \<noteq> [])"
proof -
  have nb: "\<forall>c\<in>set [104, 101, 108, 108, 111]. \<not> is_linebreak c"
    by (simp add: is_linebreak_def)
  have one: "(1::int) \<le> 2" by simp
  from wrap_lines_single_line [OF one nb] nb wrap_lines_hello
  show ?thesis by simp
qed

section \<open>Properties of decoding and rendering\<close>

lemma decode_loop_three:
  "decode_loop lib [Utf_8_sig, Utf_16, Latin_1] data =
     (case utf_8_sig lib data of
        Some text \<Rightarrow> Some text
      | None \<Rightarrow> (case utf_16 lib data of
                   Some text \<Rightarrow> Some text
                 | None \<Rightarrow> Some (latin_1 data)))"
  by (simp split: option.split)

lemma strings_drawn_append:
  "strings_drawn (a @ b) = strings_drawn a @ strings_drawn b"
  by (induction a rule: strings_drawn.induct) simp_all

lemma draw_segment_code:
  "draw_segment height (y, doc) segment =
     ((if y \<le> MARGIN then height - MARGIN else y) - LINE_HEIGHT,
      doc\<lparr>code := code doc @ segment_ops height y segment\<rparr>)"
  by (simp add: draw_segment_def showPage_def setFont_def drawString_def segment_ops_def)

lemma strings_drawn_segment_ops:
  "strings_drawn (segment_ops height y segment) =
     [(MARGIN, (if y \<le> MARGIN then height - MARGIN else y), segment)]"
  by (simp add: segment_ops_def)

lemma draw_segments_Nil: "draw_segments height st [] = st"
  by (simp add: draw_segments_def)

lemma draw_segments_Cons:
  "draw_segments height st (segment # segments) =
     draw_segments height (draw_segment height st segment) segments"
  by (simp add: draw_segments_def)

lemma draw_segments_step:
  "draw_segments height (y, doc) (segment # segments) =
     draw_segments height
       ((if y \<le> MARGIN then height - MARGIN else y) - LINE_HEIGHT,
        doc\<lparr>code := code doc @ segment_ops height y segment\<rparr>) segments"
  by (simp only: draw_segments_Cons draw_segment_code)

lemma draw_segments_texts:
  "map (\<lambda>p. snd (snd p)) (strings_drawn (code (snd (draw_segments height (y, doc) segments)))) =
   map (\<lambda>p. snd (snd p)) (strings_drawn (code doc)) @ segments"
proof (induction segments arbitrary: y doc)
  case Nil
  show ?case by (simp add: draw_segments_Nil)
next
  case (Cons segment segments)
  show ?case
    unfolding draw_segments_step Cons.IH
    by (simp add: strings_drawn_append strings_drawn_segment_ops)
qed

lemma draw_segments_positions:
  assumes "2 * MARGIN < height"
  shows "list_all (\<lambda>p. fst p = MARGIN \<and> MARGIN < fst (snd p)) (strings_drawn (code doc)) \<Longrightarrow>
     list_all (\<lambda>p. fst p = MARGIN \<and> MARGIN < fst (snd p))
       (strings_drawn (code (snd (draw_segments height (y, doc) segments))))"
proof (induction segments arbitrary: y doc)
  case Nil
  then show ?case by (simp add: draw_segments_Nil)
next
  case (Cons segment segments)
  have above: "MARGIN < (if y \<le> MARGIN then height - MARGIN else y)"
    using assms by (cases "y \<le> MARGIN") simp_all
  have "list_all (\<lambda>p. fst p = MARGIN \<and> MARGIN < fst (snd p))
          (strings_drawn (code (doc\<lparr>code := code doc @ segment_ops height y segment\<rparr>)))"
    using Cons.prems above
    by (simp add: strings_drawn_append strings_drawn_segment_ops del: if_split)
  from Cons.IH[OF this] show ?case
    by (simp only: draw_segments_step)
qed

lemma render_eq:
  "render jsf_path pdf_path segments =
     snd (draw_segments (snd LETTER)
            (snd LETTER - MARGIN - LINE_HEIGHT * 2,
             \<lparr>filename = pdf_path, pagesize = LETTER,
              code = [SetFont (str ''Helvetica'') 11,
                      DrawString MARGIN (snd LETTER - MARGIN)
                        (str ''Source: '' @ path_name jsf_path)]\<rparr>)
            segments)"
  by (simp add: render_def Let_def LETTER_def Canvas_def setFont_def drawString_def)

lemma convert_missing:
  "files w jsf_path = None \<Longrightarrow>
   convert lib jsf_path pdf_path w =
     Some (Inl (FileNotFoundError (str ''Missing input: '' @ jsf_path)),
           w\<lparr>fs_log := fs_log w @ [Exists jsf_path]\<rparr>)"
  by (simp add: convert_def log_op_def)

lemma wrap_lines_empty: "0 \<le> m \<Longrightarrow> wrap_lines [] m = Some [[]]"
  by (simp add: wrap_lines_def source_lines_def splitlines_def wrap_line_def)

lemma render_empty:
  "render jsf_path pdf_path [[]] =
     \<lparr>filename = pdf_path, pagesize = LETTER,
      code = [SetFont (str ''Helvetica'') 11,
              DrawString 72 720 (str ''Source: '' @ path_name jsf_path),
              DrawString 72 692 []]\<rparr>"
  unfolding render_eq draw_segments_step draw_segments_Nil
  by (simp add: segment_ops_def MARGIN_def LINE_HEIGHT_def LETTER_def)

section \<open>The claims about decoding, rendering, \<open>convert\<close> and \<open>main\<close>\<close>

text \<open>
  C2. The encoding resolver tries UTF-8 with BOM stripping, then UTF-16, then Latin-1,
  and takes the first decoder that succeeds. Latin-1 succeeds on every byte sequence,
  so the loop always ends with a text: the lenient UTF-8 fallback is never reached, and
  the decoded text does not depend on it.
\<close>

theorem decode_text_first_success:
  "decode lib Latin_1 data = Some (latin_1 data)
   \<and> length (latin_1 data) = length data
   \<and> decode_loop lib [Utf_8_sig, Utf_16, Latin_1] data \<noteq> None
   \<and> decode_text lib data =
       (case utf_8_sig lib data of
          Some text \<Rightarrow> text
        | None \<Rightarrow> (case utf_16 lib data of
                     Some text \<Rightarrow> text
                   | None \<Rightarrow> latin_1 data))
   \<and> decode_text (lib\<lparr>utf_8_ignore := fallback\<rparr>) data = decode_text lib data"
  by (simp add: decode_text_def latin_1_def split: option.split)

theorem decode_text_first_success_witness:
  "decode_text
     \<lparr>utf_8_sig = (\<lambda>_. None), utf_16 = (\<lambda>_. None), utf_8_ignore = (\<lambda>_. []),
      resolve = (\<lambda>p. p), error_text = (\<lambda>_. []), pdf_bytes = (\<lambda>_. [])\<rparr>
     [0xFF, 0x41] = [255, 65]"
  using decode_text_first_success
    [of "\<lparr>utf_8_sig = (\<lambda>_. None), utf_16 = (\<lambda>_. None), utf_8_ignore = (\<lambda>_. []),
          resolve = (\<lambda>p. p), error_text = (\<lambda>_. []), pdf_bytes = (\<lambda>_. [])\<rparr>"
        "[0xFF, 0x41]"]
  by (simp add: latin_1_def)

text \<open>
  C5. Every string on the rendered pages is drawn at the left margin and strictly
  above the bottom margin of 72 points, the title first and then the segments in
  order, one string each. One pass of the loop with the cursor at or below the bottom
  margin ends the page, sets the font again and draws the segment at the top margin
  (page height minus 72); otherwise it draws at the cursor. Either way the cursor then
  moves down by the line height of 14 points.
\<close>

theorem render_above_bottom_margin:
  "list_all (\<lambda>p. fst p = 72 \<and> 72 < fst (snd p))
     (strings_drawn (code (render jsf_path pdf_path segments)))
   \<and> map (\<lambda>p. snd (snd p)) (strings_drawn (code (render jsf_path pdf_path segments))) =
       (str ''Source: '' @ path_name jsf_path) # segments
   \<and> draw_segment (snd LETTER) (y, doc) segment =
       (if y \<le> 72
        then (snd LETTER - 72 - 14,
              doc\<lparr>code := code doc @ [ShowPage, SetFont (str ''Helvetica'') 11,
                                       DrawString 72 (snd LETTER - 72) segment]\<rparr>)
        else (y - 14, doc\<lparr>code := code doc @ [DrawString 72 y segment]\<rparr>))"
proof -
  have h: "2 * MARGIN < snd LETTER" by (simp add: MARGIN_def LETTER_def)
  have "list_all (\<lambda>p. fst p = MARGIN \<and> MARGIN < fst (snd p))
     (strings_drawn (code (render jsf_path pdf_path segments)))"
    unfolding render_eq
    by (rule draw_segments_positions[OF h]) (simp add: MARGIN_def LETTER_def)
  then have a: "list_all (\<lambda>p. fst p = 72 \<and> 72 < fst (snd p))
     (strings_drawn (code (render jsf_path pdf_path segments)))"
    by (simp only: MARGIN_def)
  have b: "map (\<lambda>p. snd (snd p)) (strings_drawn (code (render jsf_path pdf_path segments))) =
       (str ''Source: '' @ path_name jsf_path) # segments"
    unfolding render_eq draw_segments_texts by simp
  have c: "draw_segment (snd LETTER) (y, doc) segment =
       (if y \<le> 72
        then (snd LETTER - 72 - 14,
              doc\<lparr>code := code doc @ [ShowPage, SetFont (str ''Helvetica'') 11,
                                       DrawString 72 (snd LETTER - 72) segment]\<rparr>)
        else (y - 14, doc\<lparr>code := code doc @ [DrawString 72 y segment]\<rparr>))"
    by (simp add: draw_segment_code segment_ops_def MARGIN_def LINE_HEIGHT_def)
  from a b c show ?thesis by (intro conjI)
qed

theorem render_above_bottom_margin_witness:
  "draw_segment (snd LETTER) (62, \<lparr>filename = [], pagesize = LETTER, code = []\<rparr>) [104] =
     (706, \<lparr>filename = [], pagesize = LETTER,
            code = [ShowPage, SetFont (str ''Helvetica'') 11, DrawString 72 720 [104]]\<rparr>)
   \<and> draw_segment (snd LETTER) (76, \<lparr>filename = [], pagesize = LETTER, code = []\<rparr>) [104] =
     (62, \<lparr>filename = [], pagesize = LETTER, code = [DrawString 72 76 [104]]\<rparr>)
   \<and> list_all (\<lambda>p. fst p = 72 \<and> 72 < fst (snd p))
        (strings_drawn (code (render [47, 97] [47, 98] [[104], [105]])))"
  using render_above_bottom_margin
      [of "[47, 97]" "[47, 98]" "[[104], [105]]" 62
          "\<lparr>filename = [], pagesize = LETTER, code = []\<rparr>" "[104]"]
    render_above_bottom_margin
      [of "[47, 97]" "[47, 98]" "[[104], [105]]" 76
          "\<lparr>filename = [], pagesize = LETTER, code = []\<rparr>" "[104]"]
  by (simp add: LETTER_def)

text \<open>
  C7. With an argument vector of any length but three (the program name and two
  arguments) \<open>main\<close> returns exit code 1 and the only effect is the usage line on the
  error stream: the files and the log of file-system operations are unchanged.
\<close>

theorem main_usage_error:
  "length argv \<noteq> 3 \<Longrightarrow>
   main lib argv w =
     Some (1, w\<lparr>stderr := stderr w @ [str ''Usage: converter.py <input.jsf> <output.pdf>'']\<rparr>)"
  by (simp add: main_def print_stderr_def)

theorem main_usage_error_witness:
  "length [str ''converter.py'', str ''in.jsf''] \<noteq> 3
   \<and> main
        \<lparr>utf_8_sig = (\<lambda>_. None), utf_16 = (\<lambda>_. None), utf_8_ignore = (\<lambda>_. []),
           resolve = (\<lambda>p. p), error_text = (\<lambda>_. []), pdf_bytes = (\<lambda>_. [])\<rparr>
        [str ''converter.py'', str ''in.jsf'']
        \<lparr>files = Map.empty, fs_log = [], stderr = []\<rparr> =
      Some (1, \<lparr>files = Map.empty, fs_log = [],
                stderr = [str ''Usage: converter.py <input.jsf> <output.pdf>'']\<rparr>)"
  using main_usage_error
    [of "[str ''converter.py'', str ''in.jsf'']"
        "\<lparr>utf_8_sig = (\<lambda>_. None), utf_16 = (\<lambda>_. None), utf_8_ignore = (\<lambda>_. []),
           resolve = (\<lambda>p. p), error_text = (\<lambda>_. []), pdf_bytes = (\<lambda>_. [])\<rparr>"
        "\<lparr>files = Map.empty, fs_log = [], stderr = []\<rparr>"]
  by simp

text \<open>
  C6. When the resolved input path names no file, \<open>convert\<close> raises the missing-input
  error, whose message ends with that path, after the existence check alone: nothing
  is read or written. \<open>main\<close> then prints the message on the error stream and returns
  exit code 1; the files are as before, so no output file exists that did not before.
\<close>

theorem missing_input_error:
  assumes "files w (resolve lib input) = None"
  shows "convert lib (resolve lib input) pdf_path w =
           Some (Inl (FileNotFoundError (str ''Missing input: '' @ resolve lib input)),
                 w\<lparr>fs_log := fs_log w @ [Exists (resolve lib input)]\<rparr>)
       \<and> main lib [prog, input, output] w =
           Some (1, w\<lparr>fs_log := fs_log w @ [Resolve input, Resolve output,
                                               Exists (resolve lib input)],
                       stderr := stderr w @
                         [str ''Conversion failed: '' @ str ''Missing input: ''
                            @ resolve lib input]\<rparr>)"
proof -
  let ?w = "log_op (Resolve output) (log_op (Resolve input) w)"
  have f: "files ?w (resolve lib input) = None"
    using assms by (simp add: log_op_def)
  have "main lib [prog, input, output] w =
      Option.bind (convert lib (resolve lib input) (resolve lib output) ?w)
        (\<lambda>(result, w).
            case result of
              Inl exc \<Rightarrow> Some (1, print_stderr (str ''Conversion failed: '' @ exn_str exc) w)
            | Inr _ \<Rightarrow> Some (0, w))"
    by (simp add: main_def Let_def)
  also have "\<dots> = Some (1, w\<lparr>fs_log := fs_log w @ [Resolve input, Resolve output,
                                               Exists (resolve lib input)],
                       stderr := stderr w @
                         [str ''Conversion failed: '' @ str ''Missing input: ''
                            @ resolve lib input]\<rparr>)"
    by (simp only: convert_missing[OF f]) (simp add: print_stderr_def log_op_def)
  finally show ?thesis using convert_missing[OF assms] by simp
qed

theorem missing_input_error_witness:
  "files \<lparr>files = Map.empty, fs_log = [], stderr = []\<rparr> [47, 97] = None
   \<and> main \<lparr>utf_8_sig = (\<lambda>_. None), utf_16 = (\<lambda>_. None), utf_8_ignore = (\<lambda>_. []),
            resolve = (\<lambda>p. p), error_text = (\<lambda>_. []), pdf_bytes = (\<lambda>_. [])\<rparr>
        [str ''converter.py'', [47, 97], [47, 98]]
        \<lparr>files = Map.empty, fs_log = [], stderr = []\<rparr> =
      Some (1, \<lparr>files = Map.empty,
                fs_log = [Resolve [47, 97], Resolve [47, 98], Exists [47, 97]],
                stderr = [str ''Conversion failed: '' @ str ''Missing input: '' @ [47, 97]]\<rparr>)"
  using missing_input_error
    [of "\<lparr>files = Map.empty, fs_log = [], stderr = []\<rparr>"
        "\<lparr>utf_8_sig = (\<lambda>_. None), utf_16 = (\<lambda>_. None), utf_8_ignore = (\<lambda>_. []),
          resolve = (\<lambda>p. p), error_text = (\<lambda>_. []), pdf_bytes = (\<lambda>_. [])\<rparr>"
        "[47, 97]" "[47, 98]" "str ''converter.py''" "[47, 98]"]
  by simp

text \<open>
  C1. When the bytes of the input file begin with the signature \<open>%PDF-\<close>, \<open>convert\<close>
  checks, reads, creates the parent directory and copies, and does nothing else:
  afterwards the output path holds exactly the bytes of the input, and the outcome does
  not depend on the decoders or on the renderer. When input and output are the same
  path the copy is refused with an error and the file, already identical, is untouched.
\<close>

theorem convert_pdf_passthrough:
  assumes "files w jsf_path = Some data" "startswith data pdf_signature"
  shows "convert lib jsf_path pdf_path w =
           Some (if jsf_path = pdf_path
                 then (Inl (SameFileError (error_text lib (CopyFile jsf_path pdf_path))),
                       w\<lparr>fs_log := fs_log w @ [Exists jsf_path, ReadBytes jsf_path,
                                                 Mkdir (path_parent pdf_path)]\<rparr>)
                 else (Inr (),
                       w\<lparr>files := (files w)(pdf_path \<mapsto> data),
                         fs_log := fs_log w @ [Exists jsf_path, ReadBytes jsf_path,
                                               Mkdir (path_parent pdf_path),
                                               CopyFile jsf_path pdf_path]\<rparr>))
       \<and> (\<exists>result w'. convert lib jsf_path pdf_path w = Some (result, w')
              \<and> files w' pdf_path = Some data \<and> files w' jsf_path = Some data)
       \<and> convert (lib\<lparr>utf_8_sig := d1, utf_16 := d2, utf_8_ignore := d3, pdf_bytes := r\<rparr>)
             jsf_path pdf_path w = convert lib jsf_path pdf_path w"
proof -
  have eq: "\<And>lib. convert lib jsf_path pdf_path w =
           Some (if jsf_path = pdf_path
                 then (Inl (SameFileError (error_text lib (CopyFile jsf_path pdf_path))),
                       w\<lparr>fs_log := fs_log w @ [Exists jsf_path, ReadBytes jsf_path,
                                                 Mkdir (path_parent pdf_path)]\<rparr>)
                 else (Inr (),
                       w\<lparr>files := (files w)(pdf_path \<mapsto> data),
                         fs_log := fs_log w @ [Exists jsf_path, ReadBytes jsf_path,
                                               Mkdir (path_parent pdf_path),
                                               CopyFile jsf_path pdf_path]\<rparr>))"
    using assms by (simp add: convert_def log_op_def copyfile_def)
  have ex: "\<exists>result w'. convert lib jsf_path pdf_path w = Some (result, w')
              \<and> files w' pdf_path = Some data \<and> files w' jsf_path = Some data"
    unfolding eq using assms(1) by (cases "jsf_path = pdf_path") simp_all
  have ind: "convert (lib\<lparr>utf_8_sig := d1, utf_16 := d2, utf_8_ignore := d3, pdf_bytes := r\<rparr>)
             jsf_path pdf_path w = convert lib jsf_path pdf_path w"
    by (simp add: eq)
  from eq[of lib] ex ind show ?thesis by (intro conjI)
qed

theorem convert_pdf_passthrough_witness:
  "startswith [0x25, 0x50, 0x44, 0x46, 0x2D, 0x31 :: 8 word] pdf_signature
   \<and> convert \<lparr>utf_8_sig = (\<lambda>_. None), utf_16 = (\<lambda>_. None), utf_8_ignore = (\<lambda>_. []),
               resolve = (\<lambda>p. p), error_text = (\<lambda>_. []), pdf_bytes = (\<lambda>_. [])\<rparr>
        [47, 97] [47, 98]
        \<lparr>files = [[47, 97] \<mapsto> [0x25, 0x50, 0x44, 0x46, 0x2D, 0x31]],
         fs_log = [], stderr = []\<rparr> =
      Some (Inr (),
            \<lparr>files = [[47, 97] \<mapsto> [0x25, 0x50, 0x44, 0x46, 0x2D, 0x31],
                      [47, 98] \<mapsto> [0x25, 0x50, 0x44, 0x46, 0x2D, 0x31]],
             fs_log = [Exists [47, 97], ReadBytes [47, 97], Mkdir [47],
                       CopyFile [47, 97] [47, 98]],
             stderr = []\<rparr>)"
proof -
  have s: "startswith [0x25, 0x50, 0x44, 0x46, 0x2D, 0x31 :: 8 word] pdf_signature"
    by (simp add: startswith_def pdf_signature_def)
  have f: "files \<lparr>files = [[47, 97] \<mapsto> [0x25, 0x50, 0x44, 0x46, 0x2D, 0x31 :: 8 word]],
         fs_log = [], stderr = []\<rparr> [47, 97] = Some [0x25, 0x50, 0x44, 0x46, 0x2D, 0x31]"
    by simp
  have p: "path_parent [47, 98] = [47]" by (simp add: path_parent_def)
  from convert_pdf_passthrough [OF f s, of
      "\<lparr>utf_8_sig = (\<lambda>_. None), utf_16 = (\<lambda>_. None), utf_8_ignore = (\<lambda>_. []),
        resolve = (\<lambda>p. p), error_text = (\<lambda>_. []), pdf_bytes = (\<lambda>_. [])\<rparr>" "[47, 98]"]
    s p show ?thesis by simp
qed

text \<open>
  C8. For the empty text \<open>wrap_lines\<close> yields exactly one segment, the empty string, at
  the default width 100 and at every other width from 0 up. So an input that is not a
  PDF and decodes to the empty text is rendered as one page: the font, the title line,
  and one empty string below it, with no page break.
\<close>

theorem empty_input_single_page:
  assumes "files w jsf_path = Some data" "\<not> startswith data pdf_signature"
    "decode_text lib data = []"
  shows "wrap_lines [] (int n) = Some [[]]
       \<and> wrap_lines [] 100 = Some [[]]
       \<and> convert lib jsf_path pdf_path w =
           Some (Inr (),
                 w\<lparr>files := (files w)(pdf_path \<mapsto>
                      pdf_bytes lib
                        \<lparr>filename = pdf_path, pagesize = LETTER,
                         code = [SetFont (str ''Helvetica'') 11,
                                 DrawString 72 720 (str ''Source: '' @ path_name jsf_path),
                                 DrawString 72 692 []]\<rparr>),
                   fs_log := fs_log w @ [Exists jsf_path, ReadBytes jsf_path,
                                         Mkdir (path_parent pdf_path),
                                         WriteFile pdf_path]\<rparr>)"
proof -
  have a: "wrap_lines [] (int n) = Some [[]]" by (rule wrap_lines_empty) simp
  have b: "wrap_lines [] 100 = Some [[]]" by (rule wrap_lines_empty) simp
  have c: "convert lib jsf_path pdf_path w =
           Some (Inr (),
                 w\<lparr>files := (files w)(pdf_path \<mapsto>
                      pdf_bytes lib
                        \<lparr>filename = pdf_path, pagesize = LETTER,
                         code = [SetFont (str ''Helvetica'') 11,
                                 DrawString 72 720 (str ''Source: '' @ path_name jsf_path),
                                 DrawString 72 692 []]\<rparr>),
                   fs_log := fs_log w @ [Exists jsf_path, ReadBytes jsf_path,
                                         Mkdir (path_parent pdf_path),
                                         WriteFile pdf_path]\<rparr>)"
    using assms by (simp add: convert_def log_op_def b render_empty save_def)
  from a b c show ?thesis by (intro conjI)
qed

theorem empty_input_single_page_witness:
  "\<not> startswith ([] :: bytes) pdf_signature
   \<and> decode_text \<lparr>utf_8_sig = (\<lambda>_. None), utf_16 = (\<lambda>_. None), utf_8_ignore = (\<lambda>_. []),
               resolve = (\<lambda>p. p), error_text = (\<lambda>_. []), pdf_bytes = (\<lambda>_. [])\<rparr> [] = []
   \<and> convert \<lparr>utf_8_sig = (\<lambda>_. None), utf_16 = (\<lambda>_. None), utf_8_ignore = (\<lambda>_. []),
               resolve = (\<lambda>p. p), error_text = (\<lambda>_. []), pdf_bytes = (\<lambda>_. [])\<rparr>
        [47, 97] [47, 98]
        \<lparr>files = [[47, 97] \<mapsto> []], fs_log = [], stderr = []\<rparr> =
      Some (Inr (),
            \<lparr>files = [[47, 97] \<mapsto> [], [47, 98] \<mapsto> []],
             fs_log = [Exists [47, 97], ReadBytes [47, 97], Mkdir [47], WriteFile [47, 98]],
             stderr = []\<rparr>)"
proof -
  let ?lib = "\<lparr>utf_8_sig = (\<lambda>_. None), utf_16 = (\<lambda>_. None), utf_8_ignore = (\<lambda>_. []),
               resolve = (\<lambda>p. p), error_text = (\<lambda>_. []), pdf_bytes = (\<lambda>_. [])\<rparr>"
  have s: "\<not> startswith ([] :: bytes) pdf_signature"
    by (simp add: startswith_def pdf_signature_def)
  have d: "decode_text ?lib [] = []"
    by (simp add: decode_text_def latin_1_def)
  have f: "files \<lparr>files = [[47, 97] \<mapsto> ([] :: bytes)], fs_log = [], stderr = []\<rparr> [47, 97]
      = Some []"
    by simp
  have p: "path_parent [47, 98] = [47]" by (simp add: path_parent_def)
  from empty_input_single_page [OF f s d, of 100 "[47, 98]"] s d p
  show ?thesis by simp
qed

end
